theory Spec2Isabelle
  imports Complex_Main "HOL-Library.Word"
begin

section \<open>The size-targeting quality search of \<open>app.py\<close>\<close>

text \<open>
  This theory embeds \<open>compress_image\<close> of \<open>src/app.py\<close> (lines 33 to 88): the
  four-tier target size computation and the binary search over the JPEG quality.

  Modelling decisions.
  \<^item> Python floats are modelled as exact reals, with one extra value for
    \<open>float('inf')\<close>, the initial \<open>best_size\<close>.  Every size the code computes is
    \<open>len(bytes) / 1024\<close>, hence finite.
  \<^item> \<open>img.save(output, format='JPEG', quality=q, optimize=True, progressive=True)\<close>
    on the normalised copy \<open>img\<close> is the external encode capability.  It is a
    parameter \<open>save\<close>: it gets the quality and the state of the outside world,
    and gives back either the exception it raised or the bytes written to the
    fresh buffer, together with the new state of the world.
  \<^item> An exception is a value \<open>Inl e\<close>; the code has no \<open>try\<close>, so every \<open>Inl\<close> of
    \<open>save\<close> ends the function at once.
  \<^item> Lines 35 to 38 make \<open>img\<close>, a converted or plain copy of the argument;
    the search reads it through \<open>save\<close> only, so the image itself is not a
    parameter of the model.
\<close>

subsection \<open>Data\<close>

type_synonym byte = "8 word"

type_synonym bytes = "byte list"

datatype error = EncodeFailed string

text \<open>A float that is either finite or \<open>float('inf')\<close>.\<close>

datatype xfloat = Finite real | PosInf

text \<open>\<open>best_size * 0.95\<close>: infinity times a positive constant is infinity.\<close>

fun times_095 :: "xfloat \<Rightarrow> xfloat" where
  "times_095 (Finite x) = Finite (x * 0.95)"
| "times_095 PosInf = PosInf"

text \<open>\<open>c > x\<close> for a finite \<open>c\<close>: nothing finite is greater than infinity.\<close>

fun greater_than :: "real \<Rightarrow> xfloat \<Rightarrow> bool" where
  "greater_than c (Finite x) = (x < c)"
| "greater_than c PosInf = False"

text \<open>The local variables of the search loop (lines 51 to 55).\<close>

record search_state =
  min_quality :: int
  max_quality :: int
  best_quality :: int
  best_output :: "bytes option"
  best_size :: xfloat

type_synonym 'w encoder = "int \<Rightarrow> 'w \<Rightarrow> (error + bytes) \<times> 'w"

subsection \<open>Target size (lines 40 to 48)\<close>

definition compute_target :: "real \<Rightarrow> real" where
  "compute_target original_size_kb =
     (if original_size_kb \<le> 50 then original_size_kb * 1.0
      else if original_size_kb \<le> 100 then original_size_kb * 0.6
      else if original_size_kb \<le> 500 then original_size_kb * 0.2
      else original_size_kb * 0.1)"

subsection \<open>The search loop (lines 57 to 76)\<close>

definition initial_state :: search_state where
  "initial_state =
     \<lparr>min_quality = 20, max_quality = 85, best_quality = 85,
      best_output = None, best_size = PosInf\<rparr>"

text \<open>Lines 70 to 73: the candidate is recorded when the acceptance test holds.\<close>

definition record_candidate :: "search_state \<Rightarrow> bytes \<Rightarrow> real \<Rightarrow> int \<Rightarrow> search_state" where
  "record_candidate s out current_size quality =
     (if greater_than current_size (times_095 (best_size s))
      then s\<lparr>best_output := Some out, best_size := Finite current_size,
              best_quality := quality\<rparr>
      else s)"

text \<open>Lines 58 to 76: one iteration, given the bytes of the encode at \<open>quality\<close>.\<close>

definition loop_body :: "real \<Rightarrow> search_state \<Rightarrow> int \<Rightarrow> bytes \<Rightarrow> search_state" where
  "loop_body target_size_kb s quality out =
     (let current_size = real (length out) / 1024
      in if current_size \<le> target_size_kb
         then (record_candidate s out current_size quality)\<lparr>min_quality := quality + 1\<rparr>
         else s\<lparr>max_quality := quality - 1\<rparr>)"

function search_loop ::
  "'w encoder \<Rightarrow> real \<Rightarrow> search_state \<Rightarrow> 'w \<Rightarrow> (error + search_state) \<times> 'w" where
  "search_loop save target_size_kb s w =
     (if min_quality s \<le> max_quality s
      then (let quality = (min_quality s + max_quality s) div 2
            in case save quality w of
                 (Inl e, w') \<Rightarrow> (Inl e, w')
               | (Inr out, w') \<Rightarrow>
                   search_loop save target_size_kb (loop_body target_size_kb s quality out) w')
      else (Inr s, w))"
  by pat_completeness auto
termination
proof (relation "measure (\<lambda>(save, t, s, w). nat (max_quality s + 1 - min_quality s))")
  show "wf (measure (\<lambda>(save :: 'w encoder, t :: real, s, w :: 'w).
              nat (max_quality s + 1 - min_quality s)))"
    by simp
next
  fix save :: "'w encoder" and target_size_kb :: real and s :: search_state and w :: 'w
    and quality :: int and w' :: 'w and out :: bytes
  assume le: "min_quality s \<le> max_quality s"
    and q: "quality = (min_quality s + max_quality s) div 2"
  have "min_quality s \<le> quality" "quality \<le> max_quality s"
    using le q by simp_all
  then show "((save, target_size_kb, loop_body target_size_kb s quality out, w'),
              (save, target_size_kb, s, w))
             \<in> measure (\<lambda>(save, t, s, w). nat (max_quality s + 1 - min_quality s))"
    using le by (simp add: loop_body_def record_candidate_def Let_def)
qed

declare search_loop.simps [simp del]

subsection \<open>The whole function (lines 40 to 88)\<close>

text \<open>
  Line 79, \<open>if not best_output\<close>: \<open>None\<close> is falsy, and so is an empty bytes
  object.  In both cases the quality \<open>min_quality\<close> is encoded once more and that
  output is returned.
\<close>

definition compress_image :: "'w encoder \<Rightarrow> real \<Rightarrow> 'w \<Rightarrow> (error + bytes) \<times> 'w" where
  "compress_image save original_size_kb w =
     (let target_size_kb = compute_target original_size_kb
      in case search_loop save target_size_kb initial_state w of
           (Inl e, w') \<Rightarrow> (Inl e, w')
         | (Inr s, w') \<Rightarrow>
             (case best_output s of
                None \<Rightarrow> save (min_quality s) w'
              | Some b \<Rightarrow>
                  if b = [] then save (min_quality s) w'
                  else (Inr b, w')))"

subsection \<open>Observing the encode calls\<close>

text \<open>
  The function returns the bytes only.  To speak about which qualities were
  encoded, and in which order, the encoder is wrapped: \<open>recorded save\<close> behaves
  as \<open>save\<close> and appends every call, its quality and its result, to a list
  carried in the state of the world.  \<open>calls\<close> is that list for one run of
  \<open>compress_image\<close>; the quality of its last entry is the one whose bytes are
  returned whenever the post-loop encode runs.
\<close>

type_synonym call = "int \<times> (error + bytes)"

definition recorded :: "'w encoder \<Rightarrow> ('w \<times> call list) encoder" where
  "recorded save quality =
     (\<lambda>(w, tr). case save quality w of (r, w') \<Rightarrow> (r, (w', tr @ [(quality, r)])))"

definition calls :: "'w encoder \<Rightarrow> real \<Rightarrow> 'w \<Rightarrow> call list" where
  "calls save original_size_kb w =
     snd (snd (compress_image (recorded save) original_size_kb (w, [])))"

definition succeeded :: "call \<Rightarrow> bool" where
  "succeeded c = (case snd c of Inl e \<Rightarrow> False | Inr out \<Rightarrow> True)"

text \<open>An encoder that neither reads nor changes the world.\<close>

definition pure_encoder :: "(int \<Rightarrow> error + bytes) \<Rightarrow> unit encoder" where
  "pure_encoder f quality w = (f quality, w)"

text \<open>The loop variables that only a recorded candidate would change.\<close>

definition untouched :: "search_state \<Rightarrow> bool" where
  "untouched s = (best_output s = None \<and> best_size s = PosInf \<and> best_quality s = 85)"

text \<open>How often an interval of \<open>n\<close> qualities can be halved before it is empty.\<close>

fun halvings :: "nat \<Rightarrow> nat" where
  "halvings n = (if n = 0 then 0 else Suc (halvings (n div 2)))"

declare halvings.simps [simp del]

subsection \<open>Test encoders\<close>

text \<open>
  Only the length of an output matters to the search, so the test encoders
  write \<open>n\<close> zero bytes.
  \<^item> \<open>always_small\<close>: 1 KB at every quality.
  \<^item> \<open>kb_per_quality\<close>: \<open>quality\<close> KB at quality \<open>quality\<close>.
  \<^item> \<open>linear_mock\<close>: \<open>quality * 1.2\<close> KB, rounded down to whole bytes
    (\<open>6144 * quality div 5\<close> bytes); at quality 50 that is exactly 60 KB.
  \<^item> \<open>fails_at_69\<close>: raises at quality 69, 1 KB elsewhere.
  \<^item> \<open>ticking\<close>: \<open>linear_mock\<close> in a world that counts the encodes.
\<close>

definition filler :: "nat \<Rightarrow> bytes" where
  "filler n = replicate n 0"

definition always_small :: "int \<Rightarrow> error + bytes" where
  "always_small quality = Inr (filler 1024)"

definition kb_per_quality :: "int \<Rightarrow> error + bytes" where
  "kb_per_quality quality = Inr (filler (nat (1024 * quality)))"

definition linear_mock :: "int \<Rightarrow> error + bytes" where
  "linear_mock quality = Inr (filler (nat ((6144 * quality) div 5)))"

definition fails_at_69 :: "int \<Rightarrow> error + bytes" where
  "fails_at_69 quality =
     (if quality = 69 then Inl (EncodeFailed ''cannot write mode F as JPEG'')
      else Inr (filler 1024))"

definition ticking :: "nat encoder" where
  "ticking quality n = (linear_mock quality, Suc n)"

section \<open>Properties\<close>

subsection \<open>Unfolding the loop\<close>

lemma length_filler [simp]: "length (filler n) = n"
  by (simp add: filler_def)

lemmas run_simps =
  calls_def recorded_def compress_image_def compute_target_def search_loop.simps
  initial_state_def pure_encoder_def loop_body_def record_candidate_def Let_def

lemma search_loop_exit:
  "\<not> min_quality s \<le> max_quality s \<Longrightarrow> search_loop save t s w = (Inr s, w)"
  by (subst search_loop.simps) simp

lemma search_loop_error:
  "min_quality s \<le> max_quality s \<Longrightarrow>
   save ((min_quality s + max_quality s) div 2) w = (Inl e, w') \<Longrightarrow>
   search_loop save t s w = (Inl e, w')"
  by (subst search_loop.simps) simp

lemma search_loop_step:
  "min_quality s \<le> max_quality s \<Longrightarrow>
   save ((min_quality s + max_quality s) div 2) w = (Inr out, w') \<Longrightarrow>
   search_loop save t s w =
     search_loop save t (loop_body t s ((min_quality s + max_quality s) div 2) out) w'"
  by (subst search_loop.simps) simp

lemma search_loop_induct [consumes 0, case_names exit error step]:
  fixes save :: "'w encoder" and P :: "search_state \<Rightarrow> 'w \<Rightarrow> bool"
  assumes exit: "\<And>s w. \<not> min_quality s \<le> max_quality s \<Longrightarrow> P s w"
    and error: "\<And>s w e w'. min_quality s \<le> max_quality s \<Longrightarrow>
           save ((min_quality s + max_quality s) div 2) w = (Inl e, w') \<Longrightarrow> P s w"
    and step: "\<And>s w out w'. min_quality s \<le> max_quality s \<Longrightarrow>
           save ((min_quality s + max_quality s) div 2) w = (Inr out, w') \<Longrightarrow>
           P (loop_body t s ((min_quality s + max_quality s) div 2) out) w' \<Longrightarrow> P s w"
  shows "P s w"
proof -
  have "sv = save \<Longrightarrow> tt = t \<Longrightarrow> P s w" for sv and tt :: real
  proof (induction sv tt s w rule: search_loop.induct)
    case (1 sv tt s w)
    note sv = \<open>sv = save\<close> and tt = \<open>tt = t\<close>
    show ?case
    proof (cases "min_quality s \<le> max_quality s")
      case False
      then show ?thesis by (rule exit)
    next
      case True
      obtain r w1 where r: "sv ((min_quality s + max_quality s) div 2) w = (r, w1)"
        by (cases "sv ((min_quality s + max_quality s) div 2) w")
      show ?thesis
      proof (cases r)
        case (Inl e)
        with r sv have "save ((min_quality s + max_quality s) div 2) w = (Inl e, w1)"
          by simp
        with True show ?thesis by (rule error)
      next
        case (Inr out)
        have "P (loop_body t s ((min_quality s + max_quality s) div 2) out) w1"
          using "1.IH" [OF True refl r [symmetric] Inr sv tt] tt by simp
        moreover from Inr r sv
        have "save ((min_quality s + max_quality s) div 2) w = (Inr out, w1)"
          by simp
        ultimately show ?thesis using True step by blast
      qed
    qed
  qed
  then show ?thesis by simp
qed

subsection \<open>No candidate is ever recorded\<close>

lemma never_accepted: "\<not> greater_than c (times_095 PosInf)"
  by simp

lemma record_candidate_PosInf:
  "best_size s = PosInf \<Longrightarrow> record_candidate s out c q = s"
  by (simp add: record_candidate_def)

lemma loop_body_untouched:
  "untouched s \<Longrightarrow> untouched (loop_body t s q out)"
  by (simp add: untouched_def loop_body_def record_candidate_def Let_def)

lemma search_loop_untouched:
  "untouched s \<Longrightarrow> search_loop save t s w = (Inr s', w') \<Longrightarrow> untouched s'"
proof (induction save t s w rule: search_loop.induct)
  case (1 save t s w)
  show ?case
  proof (cases "min_quality s \<le> max_quality s")
    case False
    with "1.prems" show ?thesis by (simp add: search_loop_exit)
  next
    case True
    obtain r w1 where sv: "save ((min_quality s + max_quality s) div 2) w = (r, w1)"
      by (cases "save ((min_quality s + max_quality s) div 2) w")
    show ?thesis
    proof (cases r)
      case (Inl e)
      with True sv "1.prems" show ?thesis by (simp add: search_loop_error)
    next
      case (Inr out)
      with True sv "1.prems"(2)
      have "search_loop save t (loop_body t s ((min_quality s + max_quality s) div 2) out) w1
              = (Inr s', w')"
        by (simp add: search_loop_step)
      with "1.IH" [OF True refl sv [symmetric] Inr] loop_body_untouched [OF "1.prems"(1)]
      show ?thesis by simp
    qed
  qed
qed

lemma compress_image_fallback: "case search_loop save (compute_target original_size_kb) initial_state w of
     (Inl e, w') \<Rightarrow> compress_image save original_size_kb w = (Inl e, w')
   | (Inr s, w') \<Rightarrow>
       best_output s = None \<and> best_size s = PosInf \<and> best_quality s = 85 \<and>
       compress_image save original_size_kb w = save (min_quality s) w'"
proof (cases "search_loop save (compute_target original_size_kb) initial_state w")
  case (Pair r w')
  show ?thesis
  proof (cases r)
    case (Inl e)
    with Pair show ?thesis by (simp add: compress_image_def)
  next
    case (Inr s)
    have "untouched initial_state" by (simp add: untouched_def initial_state_def)
    from search_loop_untouched [OF this Pair [unfolded Inr]]
    have "untouched s" .
    with Pair Inr show ?thesis by (simp add: compress_image_def untouched_def)
  qed
qed


subsection \<open>Encoders that agree give the same run\<close>

lemma search_loop_sim:
  assumes sim: "\<And>q a b. R a b \<Longrightarrow>
                  fst (save1 q a) = fst (save2 q b) \<and> R (snd (save1 q a)) (snd (save2 q b))"
  shows "R a b \<Longrightarrow>
         fst (search_loop save1 t s a) = fst (search_loop save2 t s b) \<and>
         R (snd (search_loop save1 t s a)) (snd (search_loop save2 t s b))"
proof (induction s a arbitrary: b rule: search_loop_induct [where save = save1 and t = t])
  case (exit s w)
  then show ?case by (simp add: search_loop_exit)
next
  case (error s w e w')
  from sim [OF error.prems, of "(min_quality s + max_quality s) div 2"] error.hyps(2)
  obtain b' where "save2 ((min_quality s + max_quality s) div 2) b = (Inl e, b')" "R w' b'"
    by (cases "save2 ((min_quality s + max_quality s) div 2) b") auto
  with error.hyps show ?case by (simp add: search_loop_error)
next
  case (step s w out w')
  from sim [OF step.prems, of "(min_quality s + max_quality s) div 2"] step.hyps(2)
  obtain b' where b': "save2 ((min_quality s + max_quality s) div 2) b = (Inr out, b')" "R w' b'"
    by (cases "save2 ((min_quality s + max_quality s) div 2) b") auto
  from step.IH [OF b'(2)] step.hyps b'(1) show ?case by (simp add: search_loop_step)
qed

lemma compress_image_sim:
  assumes sim: "\<And>q a b. R a b \<Longrightarrow>
                  fst (save1 q a) = fst (save2 q b) \<and> R (snd (save1 q a)) (snd (save2 q b))"
    and R: "R a b"
  shows "fst (compress_image save1 orig a) = fst (compress_image save2 orig b) \<and>
         R (snd (compress_image save1 orig a)) (snd (compress_image save2 orig b))"
proof -
  let ?t = "compute_target orig"
  obtain r1 a1 where l1: "search_loop save1 ?t initial_state a = (r1, a1)"
    by (cases "search_loop save1 ?t initial_state a")
  obtain r2 b1 where l2: "search_loop save2 ?t initial_state b = (r2, b1)"
    by (cases "search_loop save2 ?t initial_state b")
  from search_loop_sim [of R save1 save2, OF sim R, of ?t initial_state] l1 l2
  have eq: "r2 = r1" and R1: "R a1 b1" by simp_all
  note l2 = l2 [unfolded eq]
  show ?thesis
  proof (cases r1)
    case (Inl e)
    with l1 l2 have "compress_image save1 orig a = (Inl e, a1)"
      "compress_image save2 orig b = (Inl e, b1)"
      by (simp_all add: compress_image_def)
    with R1 show ?thesis by simp
  next
    case (Inr s)
    have "compress_image save1 orig a = save1 (min_quality s) a1"
      using compress_image_fallback [of save1 orig a] l1 Inr by simp
    moreover have "compress_image save2 orig b = save2 (min_quality s) b1"
      using compress_image_fallback [of save2 orig b] l2 Inr by simp
    ultimately show ?thesis using sim [OF R1, of "min_quality s"] by simp
  qed
qed


subsection \<open>The list of encode calls\<close>

lemma recorded_eq:
  "save q w = (r, w') \<Longrightarrow> recorded save q (w, l) = (r, (w', l @ [(q, r)]))"
  by (simp add: recorded_def)

lemma recorded_transparent:
  "fst (compress_image (recorded save) orig (w, l)) = fst (compress_image save orig w) \<and>
   fst (snd (compress_image (recorded save) orig (w, l))) = snd (compress_image save orig w)"
proof -
  have "fst (recorded save q a) = fst (save q b) \<and>
        fst (snd (recorded save q a)) = snd (save q b)" if "fst a = b" for q a b
    using that by (cases a; cases "save q b") (simp add: recorded_def)
  from compress_image_sim [of "\<lambda>a b. fst a = b" "recorded save" save "(w, l)" w orig, OF this]
  show ?thesis by simp
qed

lemma search_loop_log:
  "\<exists>new. snd (snd (search_loop (recorded save) t s wl)) = snd wl @ new \<and>
         list_all succeeded (butlast new) \<and>
         (case fst (search_loop (recorded save) t s wl) of
            Inl e \<Rightarrow> new \<noteq> [] \<and> snd (last new) = Inl e
          | Inr s' \<Rightarrow> list_all succeeded new)"
proof (induction s wl rule: search_loop_induct [where save = "recorded save" and t = t])
  case (exit s wl)
  then show ?case by (simp add: search_loop_exit)
next
  case (error s wl e wl')
  let ?q = "(min_quality s + max_quality s) div 2"
  from error.hyps(2) have "snd wl' = snd wl @ [(?q, Inl e)]"
    by (cases wl; cases "save ?q (fst wl)") (auto simp: recorded_def)
  with error.hyps show ?case by (simp add: search_loop_error)
next
  case (step s wl out wl')
  let ?q = "(min_quality s + max_quality s) div 2"
  let ?res = "search_loop (recorded save) t (loop_body t s ?q out) wl'"
  from step.hyps(2) have wl': "snd wl' = snd wl @ [(?q, Inr out)]"
    by (cases wl; cases "save ?q (fst wl)") (auto simp: recorded_def)
  from step.IH obtain new where new: "snd (snd ?res) = snd wl' @ new"
    "list_all succeeded (butlast new)"
    "case fst ?res of Inl e \<Rightarrow> new \<noteq> [] \<and> snd (last new) = Inl e
                    | Inr s' \<Rightarrow> list_all succeeded new"
    by blast
  have eq: "search_loop (recorded save) t s wl = ?res"
    using step.hyps by (simp add: search_loop_step)
  have ok: "succeeded (?q, Inr out)" by (simp add: succeeded_def)
  have "snd (snd ?res) = snd wl @ ((?q, Inr out) # new)"
    using new(1) wl' by simp
  moreover have "list_all succeeded (butlast ((?q, Inr out) # new))"
    using new(2) ok by simp
  moreover have "case fst ?res of
                   Inl e \<Rightarrow> (?q, Inr out) # new \<noteq> [] \<and> snd (last ((?q, Inr out) # new)) = Inl e
                 | Inr s' \<Rightarrow> list_all succeeded ((?q, Inr out) # new)"
    using new(3) ok by (cases "fst ?res") simp_all
  ultimately show ?case unfolding eq by blast
qed

lemma compress_image_log:
  assumes run: "compress_image (recorded save) orig (w, []) = (res, (w', tr))"
  shows "tr \<noteq> [] \<and> list_all succeeded (butlast tr) \<and>
         (\<forall>e. (res = Inl e) = (snd (last tr) = Inl e))"
proof -
  let ?t = "compute_target orig"
  obtain r w1 l1 where loop: "search_loop (recorded save) ?t initial_state (w, []) = (r, (w1, l1))"
    by (cases "search_loop (recorded save) ?t initial_state (w, [])") auto
  from search_loop_log [of save ?t initial_state "(w, [])"] loop
  have l1: "list_all succeeded (butlast l1)"
    "case r of Inl e \<Rightarrow> l1 \<noteq> [] \<and> snd (last l1) = Inl e | Inr s' \<Rightarrow> list_all succeeded l1"
    by auto
  show ?thesis
  proof (cases r)
    case (Inl e)
    with compress_image_fallback [of "recorded save" orig "(w, [])"] loop run
    have "res = Inl e" "tr = l1" by simp_all
    with l1 Inl show ?thesis by simp
  next
    case (Inr s)
    obtain r2 w2 where sv: "save (min_quality s) w1 = (r2, w2)"
      by (cases "save (min_quality s) w1")
    have "recorded save (min_quality s) (w1, l1) = (r2, (w2, l1 @ [(min_quality s, r2)]))"
      using sv by (simp add: recorded_def)
    with compress_image_fallback [of "recorded save" orig "(w, [])"] loop run Inr
    have "res = r2" "tr = l1 @ [(min_quality s, r2)]" by simp_all
    with l1 Inr show ?thesis by auto
  qed
qed


subsection \<open>How many calls, and at which qualities\<close>

lemma halvings_mono: "m \<le> n \<Longrightarrow> halvings m \<le> halvings n"
proof (induction n arbitrary: m rule: halvings.induct)
  case (1 n)
  show ?case
  proof (cases "m = 0")
    case True
    then show ?thesis by (simp add: halvings.simps [of 0])
  next
    case False
    with "1.prems" have n: "n \<noteq> 0" by simp
    have "m div 2 \<le> n div 2" using "1.prems" by (rule div_le_mono)
    from "1.IH" [OF n this] False n show ?thesis
      by (simp add: halvings.simps [of m] halvings.simps [of n])
  qed
qed

lemma halvings_66: "halvings 66 = 7"
  by (simp add: halvings.simps)

lemma min_quality_loop_body:
  "min_quality (loop_body t s q out) =
     (if real (length out) / 1024 \<le> t then q + 1 else min_quality s)"
  by (simp add: loop_body_def record_candidate_def Let_def)

lemma max_quality_loop_body:
  "max_quality (loop_body t s q out) =
     (if real (length out) / 1024 \<le> t then max_quality s else q - 1)"
  by (simp add: loop_body_def record_candidate_def Let_def)

lemma interval_halved:
  assumes "min_quality s \<le> max_quality s"
  shows "nat (max_quality (loop_body t s ((min_quality s + max_quality s) div 2) out) + 1
              - min_quality (loop_body t s ((min_quality s + max_quality s) div 2) out))
         \<le> nat (max_quality s + 1 - min_quality s) div 2"
proof -
  define d where "d = max_quality s - min_quality s"
  have d: "0 \<le> d" and mx: "max_quality s = min_quality s + d"
    using assms by (simp_all add: d_def)
  have q: "(min_quality s + max_quality s) div 2 = min_quality s + d div 2"
    unfolding mx by presburger
  have "nat (d + 1) div 2 = nat ((d + 1) div 2)"
    using d by (simp add: nat_div_distrib)
  moreover have "d - d div 2 \<le> (d + 1) div 2" "d div 2 \<le> (d + 1) div 2"
    by presburger+
  ultimately show ?thesis
    unfolding min_quality_loop_body max_quality_loop_body q mx
    using d by (simp add: nat_le_iff)
qed

lemma search_loop_bounds:
  "\<exists>new. snd (snd (search_loop (recorded save) t s wl)) = snd wl @ new \<and>
         length new \<le> halvings (nat (max_quality s + 1 - min_quality s)) \<and>
         list_all (\<lambda>c. min_quality s \<le> fst c \<and> fst c \<le> max_quality s) new \<and>
         (case fst (search_loop (recorded save) t s wl) of
            Inl e \<Rightarrow> True
          | Inr s' \<Rightarrow> min_quality s \<le> min_quality s' \<and>
                     min_quality s' \<le> max (min_quality s) (max_quality s + 1))"
proof (induction s wl rule: search_loop_induct [where save = "recorded save" and t = t])
  case (exit s wl)
  then show ?case by (simp add: search_loop_exit)
next
  case (error s wl e wl')
  let ?q = "(min_quality s + max_quality s) div 2"
  from error.hyps(2) have "snd wl' = snd wl @ [(?q, Inl e)]"
    by (cases wl; cases "save ?q (fst wl)") (auto simp: recorded_def)
  moreover have "1 \<le> halvings (nat (max_quality s + 1 - min_quality s))"
    using error.hyps(1) by (subst halvings.simps) simp
  moreover have "min_quality s \<le> ?q" "?q \<le> max_quality s"
    using error.hyps(1) by simp_all
  ultimately show ?case using error.hyps by (simp add: search_loop_error)
next
  case (step s wl out wl')
  let ?q = "(min_quality s + max_quality s) div 2"
  let ?s1 = "loop_body t s ?q out"
  let ?res = "search_loop (recorded save) t ?s1 wl'"
  from step.hyps(2) have wl': "snd wl' = snd wl @ [(?q, Inr out)]"
    by (cases wl; cases "save ?q (fst wl)") (auto simp: recorded_def)
  have q: "min_quality s \<le> ?q" "?q \<le> max_quality s"
    using step.hyps(1) by simp_all
  have lo: "min_quality s \<le> min_quality ?s1" and hi: "max_quality ?s1 \<le> max_quality s"
    and lohi: "min_quality ?s1 \<le> max_quality s + 1"
    using q by (simp_all add: min_quality_loop_body max_quality_loop_body)
  from step.IH obtain new where new: "snd (snd ?res) = snd wl' @ new"
    "length new \<le> halvings (nat (max_quality ?s1 + 1 - min_quality ?s1))"
    "list_all (\<lambda>c. min_quality ?s1 \<le> fst c \<and> fst c \<le> max_quality ?s1) new"
    "case fst ?res of Inl e \<Rightarrow> True
     | Inr s' \<Rightarrow> min_quality ?s1 \<le> min_quality s' \<and>
                min_quality s' \<le> max (min_quality ?s1) (max_quality ?s1 + 1)"
    by blast
  have eq: "search_loop (recorded save) t s wl = ?res"
    using step.hyps by (simp add: search_loop_step)
  have "snd (snd ?res) = snd wl @ ((?q, Inr out) # new)"
    using new(1) wl' by simp
  moreover have "length ((?q, Inr out) # new) \<le> halvings (nat (max_quality s + 1 - min_quality s))"
  proof -
    have "halvings (nat (max_quality ?s1 + 1 - min_quality ?s1))
            \<le> halvings (nat (max_quality s + 1 - min_quality s) div 2)"
      by (rule halvings_mono) (rule interval_halved [OF step.hyps(1)])
    moreover have "halvings (nat (max_quality s + 1 - min_quality s))
            = Suc (halvings (nat (max_quality s + 1 - min_quality s) div 2))"
      using step.hyps(1) by (subst halvings.simps) simp
    ultimately show ?thesis using new(2) by simp
  qed
  moreover have "list_all (\<lambda>c. min_quality s \<le> fst c \<and> fst c \<le> max_quality s)
                   ((?q, Inr out) # new)"
    using new(3) q lo hi by (auto simp: list_all_iff)
  moreover have "case fst ?res of Inl e \<Rightarrow> True
     | Inr s' \<Rightarrow> min_quality s \<le> min_quality s' \<and>
                min_quality s' \<le> max (min_quality s) (max_quality s + 1)"
    using new(4) lo hi lohi by (cases "fst ?res") auto
  ultimately show ?case unfolding eq by blast
qed

text \<open>
  Whatever the encoder does, one run encodes at most eight times (seven times
  in the loop, once after it), at qualities from 20 to 86.
\<close>

lemma calls_bounds:
  "length (calls save orig w) \<le> 8 \<and>
   list_all (\<lambda>c. 20 \<le> fst c \<and> fst c \<le> 86) (calls save orig w)"
proof -
  let ?t = "compute_target orig"
  obtain r w1 l1 where loop: "search_loop (recorded save) ?t initial_state (w, []) = (r, (w1, l1))"
    by (cases "search_loop (recorded save) ?t initial_state (w, [])") auto
  from search_loop_bounds [of save ?t initial_state "(w, [])"] loop
  have l1: "length l1 \<le> 7" "list_all (\<lambda>c. 20 \<le> fst c \<and> fst c \<le> 85) l1"
    "case r of Inl e \<Rightarrow> True | Inr s' \<Rightarrow> 20 \<le> min_quality s' \<and> min_quality s' \<le> 86"
    by (auto simp: initial_state_def halvings_66 split: sum.splits)
  show ?thesis
  proof (cases r)
    case (Inl e)
    with compress_image_fallback [of "recorded save" orig "(w, [])"] loop
    have "calls save orig w = l1" by (simp add: calls_def)
    with l1 show ?thesis by (auto simp: list_all_iff)
  next
    case (Inr s)
    obtain r2 w2 where sv: "save (min_quality s) w1 = (r2, w2)"
      by (cases "save (min_quality s) w1")
    have "recorded save (min_quality s) (w1, l1) = (r2, (w2, l1 @ [(min_quality s, r2)]))"
      using sv by (simp add: recorded_def)
    with compress_image_fallback [of "recorded save" orig "(w, [])"] loop Inr
    have "calls save orig w = l1 @ [(min_quality s, r2)]" by (simp add: calls_def)
    with l1 Inr show ?thesis by (auto simp: list_all_iff)
  qed
qed

section \<open>The claims\<close>

subsection \<open>The target size\<close>

text \<open>
  C6.  The target follows the four tiers: factor 1.0 up to 50 KB, 0.6 above 50
  and up to 100 KB, 0.2 above 100 and up to 500 KB, 0.1 above 500 KB.  At the
  tier boundaries the lower tier applies: 50 gives 50, 100 gives 60 and 500
  gives 100.
\<close>

theorem compute_target_tiers:
  "(x \<le> 50 \<longrightarrow> compute_target x = x) \<and>
   (50 < x \<and> x \<le> 100 \<longrightarrow> compute_target x = x * 0.6) \<and>
   (100 < x \<and> x \<le> 500 \<longrightarrow> compute_target x = x * 0.2) \<and>
   (500 < x \<longrightarrow> compute_target x = x * 0.1) \<and>
   compute_target 50 = 50 \<and> compute_target 100 = 60 \<and> compute_target 500 = 100"
  by (simp add: compute_target_def)

text \<open>C6, at one size of each tier: 30, 75, 300 and 600 KB.\<close>

theorem compute_target_tiers_witness:
  "(30 :: real) \<le> 50 \<and> compute_target 30 = 30 \<and>
   (50 :: real) < 75 \<and> (75 :: real) \<le> 100 \<and> compute_target 75 = 45 \<and>
   (100 :: real) < 300 \<and> (300 :: real) \<le> 500 \<and> compute_target 300 = 60 \<and>
   (500 :: real) < 600 \<and> compute_target 600 = 60"
  using compute_target_tiers [of 30] compute_target_tiers [of 75]
    compute_target_tiers [of 300] compute_target_tiers [of 600]
  by simp

text \<open>
  C7.  For a positive original size the target never exceeds the original
  size, and it equals the original size exactly on the lowest tier, that is
  when the original size is at most 50 KB.
\<close>

theorem compute_target_le_original:
  "0 < x \<Longrightarrow> compute_target x \<le> x \<and> (compute_target x = x) = (x \<le> 50)"
  by (simp add: compute_target_def)

text \<open>C7, at 600 KB (strictly smaller) and at 30 KB (equal).\<close>

theorem compute_target_le_original_witness:
  "(0 :: real) < 600 \<and> compute_target 600 \<le> 600 \<and> compute_target 600 \<noteq> 600 \<and>
   (0 :: real) < 30 \<and> compute_target 30 = 30"
  using compute_target_le_original [of 600] compute_target_le_original [of 30]
  by simp

text \<open>
  C10, as amended.  There is no check of the original size: for an original
  size of zero or less the lowest tier applies and the target is the original
  size itself; no error is raised.
\<close>

theorem compute_target_nonpositive:
  "x \<le> 0 \<Longrightarrow> compute_target x = x"
  by (simp add: compute_target_def)

text \<open>C10, as amended, at \<open>-5\<close>.\<close>

theorem compute_target_nonpositive_witness:
  "(-5 :: real) \<le> 0 \<and> compute_target (-5) = -5"
  using compute_target_nonpositive [of "-5"]
  by simp

text \<open>
  C10, as stated, fails at the original size 0: the target is computed, it is
  0, and the whole function returns bytes (those of the encode at quality 20,
  since 1 KB does not fit a target of 0 KB) instead of an error.
\<close>

theorem compute_target_zero_accepted:
  "compute_target 0 = 0 \<and>
   map fst (calls (pure_encoder always_small) 0 ()) = [52, 35, 27, 23, 21, 20, 20] \<and>
   fst (compress_image (pure_encoder always_small) 0 ()) = Inr (filler 1024)"
  by (simp add: run_simps always_small_def)

subsection \<open>The search\<close>

text \<open>
  C5.  Nothing finite is greater than \<open>float('inf') * 0.95\<close>, so the acceptance
  test fails against the initial \<open>best_size\<close>.  Whenever the loop ends
  without an exception, \<open>best_output\<close> is still \<open>None\<close>, \<open>best_size\<close> is still
  infinite and \<open>best_quality\<close> is still 85: no candidate was recorded.  The
  function then returns exactly what the one encode after the loop gives, at
  the final \<open>min_quality\<close>, whether or not some quality fitted the target.  When
  the loop ends with an exception, the function ends with that exception.
\<close>

theorem fallback_always_returned:
  "(\<forall>current_size. \<not> greater_than current_size (times_095 (best_size initial_state))) \<and>
   (case search_loop save (compute_target original_size_kb) initial_state w of
      (Inl e, w') \<Rightarrow> compress_image save original_size_kb w = (Inl e, w')
    | (Inr s, w') \<Rightarrow>
        best_output s = None \<and> best_size s = PosInf \<and> best_quality s = 85 \<and>
        compress_image save original_size_kb w = save (min_quality s) w')"
  using compress_image_fallback [of save original_size_kb w]
  by (simp add: initial_state_def)

text \<open>
  C1.  With \<open>quality\<close> KB at quality \<open>quality\<close> and an original of 200 KB the
  target is 40 KB.  Quality 40 is encoded in the loop and fits (40 KB), and so
  do 35 and 39.  The function returns none of them: it returns the bytes of the
  encode after the loop, at quality 41, which are 41 KB and do not fit.
\<close>

theorem fitting_candidate_not_returned:
  "compute_target 200 = 40 \<and>
   kb_per_quality 40 = Inr (filler 40960) \<and>
   real (length (filler 40960)) / 1024 \<le> compute_target 200 \<and>
   map fst (calls (pure_encoder kb_per_quality) 200 ()) = [52, 35, 43, 39, 41, 40, 41] \<and>
   fst (compress_image (pure_encoder kb_per_quality) 200 ()) = Inr (filler 41984) \<and>
   \<not> real (length (filler 41984)) / 1024 \<le> compute_target 200"
  by (simp add: run_simps kb_per_quality_def)

text \<open>
  C2.  The scenario of 600 KB with 1.2 KB per quality step: the target is 60 KB
  and quality 50 gives exactly 60 KB, which is encoded in the loop and fits.
  The function returns the bytes of the encode after the loop, at quality 51:
  62668 bytes, more than 60 KB.
\<close>

theorem scenario_600_returns_quality_51:
  "compute_target 600 = 60 \<and>
   linear_mock 50 = Inr (filler 61440) \<and>
   real (length (filler 61440)) / 1024 = 60 \<and>
   map fst (calls (pure_encoder linear_mock) 600 ()) = [52, 35, 43, 47, 49, 50, 51, 51] \<and>
   fst (compress_image (pure_encoder linear_mock) 600 ()) = Inr (filler 62668) \<and>
   linear_mock 51 = Inr (filler 62668) \<and>
   \<not> real (length (filler 62668)) / 1024 \<le> compute_target 600"
  by (simp add: run_simps linear_mock_def)

text \<open>
  C3.  When every quality fits (1 KB at each quality, original 30 KB), the loop
  raises \<open>min_quality\<close> to 86, and the returned bytes are those of the encode
  at quality 86, outside 20 to 85.
\<close>

theorem fallback_quality_86:
  "map fst (calls (pure_encoder always_small) 30 ()) = [52, 69, 77, 81, 83, 84, 85, 86] \<and>
   fst (last (calls (pure_encoder always_small) 30 ())) = 86 \<and>
   fst (compress_image (pure_encoder always_small) 30 ()) =
     snd (last (calls (pure_encoder always_small) 30 ()))"
  by (simp add: run_simps always_small_def)

text \<open>
  C4.  When every quality fits (1 KB at each quality, original 1000 KB, target
  100 KB), the loop encodes seven times and the encode after the loop is the
  eighth call.
\<close>

theorem eight_encode_calls:
  "length (calls (pure_encoder always_small) 1000 ()) = 8"
  by (simp add: run_simps always_small_def)

text \<open>
  C8.  Let the encoder be deterministic: the result of an encode depends on the
  quality only, not on the state of the world (which the encoder may still
  change).  Then two runs with the same original size, from any two states of
  the world (the second may be the state the first run left), return the
  same result and make the same encode calls with the same results, hence use
  the same quality and reach the same size.
\<close>

theorem compress_image_deterministic:
  assumes "\<forall>q w1 w2. fst (save q w1) = fst (save q w2)"
  shows "fst (compress_image save original_size_kb w1) =
           fst (compress_image save original_size_kb w2) \<and>
         calls save original_size_kb w1 = calls save original_size_kb w2"
proof -
  have "fst (compress_image save original_size_kb w1) =
          fst (compress_image save original_size_kb w2)"
    using compress_image_sim [of "\<lambda>a b. True" save save w1 w2 original_size_kb] assms
    by simp
  moreover have "fst (recorded save q a) = fst (recorded save q b) \<and>
      snd (snd (recorded save q a)) = snd (snd (recorded save q b))"
    if "snd a = snd b" for q a b
  proof -
    obtain r1 u1 where s1: "save q (fst a) = (r1, u1)" by (cases "save q (fst a)")
    obtain r2 u2 where s2: "save q (fst b) = (r2, u2)" by (cases "save q (fst b)")
    from assms s1 s2 have "r1 = r2" by (metis fst_conv)
    with s1 s2 that show ?thesis by (cases a; cases b) (simp add: recorded_def)
  qed
  from compress_image_sim [of "\<lambda>a b. snd a = snd b" "recorded save" "recorded save"
      "(w1, [])" "(w2, [])" original_size_kb, OF this]
  have "calls save original_size_kb w1 = calls save original_size_kb w2"
    by (simp add: calls_def)
  ultimately show ?thesis by simp
qed

text \<open>
  C8, for the encoder that counts its calls in the world: the run from the
  count 0 and the run from the count the first run left give the same.
\<close>

theorem compress_image_deterministic_witness:
  "(\<forall>q w1 w2. fst (ticking q w1) = fst (ticking q w2)) \<and>
   snd (compress_image ticking 600 0) = 8 \<and>
   fst (compress_image ticking 600 0) = fst (compress_image ticking 600 8) \<and>
   calls ticking 600 0 = calls ticking 600 8"
proof -
  have det: "\<forall>q w1 w2. fst (ticking q w1) = fst (ticking q w2)"
    by (simp add: ticking_def)
  have "snd (compress_image ticking 600 0) = 8"
    by (simp add: run_simps ticking_def linear_mock_def)
  with det compress_image_deterministic [OF det, of 600 0 8] show ?thesis
    by simp
qed

text \<open>
  C9.  Run the function with the encode calls recorded.  The result and the
  world are those of the plain run.  Every call but the last succeeded, so an
  encode that raises is the last call: nothing is encoded after it, at no
  other quality.  The function ends with an exception exactly when the last
  encode raised, and with that same exception.
\<close>

theorem encode_error_propagates:
  assumes "compress_image (recorded save) original_size_kb (w, []) = (res, (w', tr))"
  shows "compress_image save original_size_kb w = (res, w') \<and>
         tr \<noteq> [] \<and> list_all succeeded (butlast tr) \<and>
         (\<forall>e. (res = Inl e) = (snd (last tr) = Inl e))"
proof -
  from recorded_transparent [of save original_size_kb w "[]"] assms
  have "compress_image save original_size_kb w = (res, w')"
    by (cases "compress_image save original_size_kb w") simp
  with compress_image_log [OF assms] show ?thesis by simp
qed

text \<open>
  C9, for the encoder that raises at quality 69: the encode at 52 succeeds, the
  encode at 69 raises, and the function ends with that exception after two
  calls.
\<close>

theorem encode_error_propagates_witness:
  "compress_image (recorded (pure_encoder fails_at_69)) 30 ((), []) =
     (Inl (EncodeFailed ''cannot write mode F as JPEG''), ((),
      [(52, Inr (filler 1024)), (69, Inl (EncodeFailed ''cannot write mode F as JPEG''))])) \<and>
   compress_image (pure_encoder fails_at_69) 30 () =
     (Inl (EncodeFailed ''cannot write mode F as JPEG''), ()) \<and>
   succeeded (52, Inr (filler 1024)) \<and>
   \<not> succeeded (69, Inl (EncodeFailed ''cannot write mode F as JPEG''))"
proof -
  have run: "compress_image (recorded (pure_encoder fails_at_69)) 30 ((), []) =
     (Inl (EncodeFailed ''cannot write mode F as JPEG''), ((),
      [(52, Inr (filler 1024)), (69, Inl (EncodeFailed ''cannot write mode F as JPEG''))]))"
    by (simp add: run_simps fails_at_69_def)
  from encode_error_propagates [OF run] run show ?thesis
    by (simp add: succeeded_def)
qed

end
